theory Spec2Isabelle
  imports Complex_Main
begin

section \<open>Central difference\<close>

text \<open>
  \<^verbatim>\<open>central_difference(f, *vals, arg=0, epsilon=1e-6)\<close> of \<^verbatim>\<open>minitorch/autodiff.py\<close>.
  Python floats are represented by reals (rounding is not modelled). The two failures
  the body can raise by itself are values of \<open>py_error\<close>: indexing \<^verbatim>\<open>list(vals)\<close>
  out of range, and the final division when \<^verbatim>\<open>2 * epsilon\<close> is zero. The function
  \<open>f\<close> is a pure function of the argument list; the calls made to it are returned
  next to the outcome, in the order they happen.
\<close>

datatype py_error = IndexError | ZeroDivisionError

definition py_index :: "'a list \<Rightarrow> int \<Rightarrow> nat option" where
  \<comment> \<open>The position a subscript denotes in a list; a negative subscript counts from the end.\<close>
  "py_index xs i =
     (if 0 \<le> i \<and> i < int (length xs) then Some (nat i)
      else if i < 0 \<and> - int (length xs) \<le> i then Some (nat (int (length xs) + i))
      else None)"

definition default_arg :: int where
  "default_arg = 0"

definition default_epsilon :: real where
  "default_epsilon = 1 / 10 ^ 6"

definition central_difference ::
  "(real list \<Rightarrow> real) \<Rightarrow> real list \<Rightarrow> int \<Rightarrow> real \<Rightarrow> real list list \<times> (py_error + real)" where
  "central_difference f vals arg epsilon =
     (case py_index vals arg of
        None \<Rightarrow> ([], Inl IndexError)
      | Some k \<Rightarrow>
          (let new_vals_plus = vals[k := vals ! k + epsilon];
               new_vals_minus = vals[k := vals ! k - epsilon];
               f_plus = f new_vals_plus;
               f_minus = f new_vals_minus
           in ([new_vals_plus, new_vals_minus],
               if 2 * epsilon = 0 then Inl ZeroDivisionError
               else Inr ((f_plus - f_minus) / (2 * epsilon)))))"

text \<open>
  A call \<^verbatim>\<open>central_difference(f, *vals, arg=a, epsilon=e)\<close> in which either keyword
  argument may be left out (\<open>None\<close>) and then takes its default.
\<close>

definition central_difference_call ::
  "(real list \<Rightarrow> real) \<Rightarrow> real list \<Rightarrow> int option \<Rightarrow> real option
     \<Rightarrow> real list list \<times> (py_error + real)" where
  "central_difference_call f vals arg_kw epsilon_kw =
     central_difference f vals
       (case arg_kw of None \<Rightarrow> default_arg | Some a \<Rightarrow> a)
       (case epsilon_kw of None \<Rightarrow> default_epsilon | Some e \<Rightarrow> e)"

section \<open>Context\<close>

text \<open>
  The dataclass \<^verbatim>\<open>Context\<close>: two fields with defaults \<^verbatim>\<open>no_grad = False\<close> and
  \<^verbatim>\<open>saved_values = ()\<close>. \<^verbatim>\<open>save_for_backward\<close> mutates the object; the model
  returns the updated record.
\<close>

record 'a Context =
  no_grad :: bool
  saved_values :: "'a list"

definition new_Context :: "bool \<Rightarrow> 'a Context" where
  \<comment> \<open>\<^verbatim>\<open>Context(no_grad)\<close>: \<^verbatim>\<open>saved_values\<close> takes its default, the empty tuple.\<close>
  "new_Context ng = \<lparr>no_grad = ng, saved_values = []\<rparr>"

definition save_for_backward :: "'a Context \<Rightarrow> 'a list \<Rightarrow> 'a Context" where
  "save_for_backward self values =
     (if no_grad self then self else self\<lparr>saved_values := values\<rparr>)"

definition saved_tensors :: "'a Context \<Rightarrow> 'a list" where
  "saved_tensors self = saved_values self"

section \<open>Variables and the computation graph\<close>

text \<open>
  A \<^verbatim>\<open>Variable\<close> is known to \<^verbatim>\<open>autodiff.py\<close> through the attributes and methods it
  uses: \<^verbatim>\<open>unique_id\<close>, \<^verbatim>\<open>history\<close> (\<^verbatim>\<open>None\<close> or an object whose \<^verbatim>\<open>inputs\<close> are
  read), \<^verbatim>\<open>is_leaf()\<close>, \<^verbatim>\<open>is_constant()\<close>, \<^verbatim>\<open>chain_rule(d_output)\<close> and
  \<^verbatim>\<open>accumulate_derivative(x)\<close>. The first five are fields of the value below; a history
  is represented by its \<^verbatim>\<open>inputs\<close>, the only attribute of it this module reads.
  An object reachable along several paths is the same value at each of them.
  \<^verbatim>\<open>accumulate_derivative\<close> and \<^verbatim>\<open>chain_rule\<close> are calls on objects whose classes lie
  outside the module: each call is recorded as an event.
  Derivatives have any type \<open>'g\<close> that has the \<^verbatim>\<open>0\<close> and \<^verbatim>\<open>+\<close> the module uses.
\<close>

datatype 'g Variable =
  Var (unique_id: int) (history: "'g Variable list option") (is_leaf: bool) (is_constant: bool)
      (chain_rule: "'g \<Rightarrow> ('g Variable \<times> 'g) list")

datatype 'g event = AccumulateDerivative "'g Variable" 'g | ChainRule "'g Variable" 'g

subsection \<open>Topological sort\<close>

text \<open>
  The nested function \<^verbatim>\<open>visit\<close> updates the two locals \<^verbatim>\<open>top_order\<close> and
  \<^verbatim>\<open>visited\<close> of its enclosing call; here it takes and returns them.
  \<open>visit_inputs\<close> is its \<^verbatim>\<open>for neigh in variable.history.inputs\<close> loop.
\<close>

fun visit :: "'g Variable \<Rightarrow> 'g Variable list \<times> int set \<Rightarrow> 'g Variable list \<times> int set"
  and visit_inputs :: "'g Variable list \<Rightarrow> 'g Variable list \<times> int set \<Rightarrow> 'g Variable list \<times> int set" where
  "visit (Var uid None lf cn cr) (top_order, visited) =
     (if uid \<in> visited then (top_order, visited)
      else (top_order, insert uid visited))"
| "visit (Var uid (Some inputs) lf cn cr) (top_order, visited) =
     (if uid \<in> visited then (top_order, visited)
      else (case visit_inputs inputs (top_order, insert uid visited) of
              (top_order', visited') \<Rightarrow>
                (top_order' @ [Var uid (Some inputs) lf cn cr], visited')))"
| "visit_inputs [] st = st"
| "visit_inputs (neigh # rest) (top_order, visited) =
     visit_inputs rest
       (if unique_id neigh \<notin> visited then visit neigh (top_order, visited)
        else (top_order, visited))"

definition topological_sort :: "'g Variable \<Rightarrow> 'g Variable list" where
  "topological_sort variable = rev (fst (visit variable ([variable], {})))"

subsection \<open>Backpropagation\<close>

text \<open>
  \<^verbatim>\<open>cur_derivs\<close> is a dictionary from \<^verbatim>\<open>unique_id\<close> to the derivative collected so far.
  \<open>add_grads\<close> is the inner loop over the pairs \<^verbatim>\<open>chain_rule\<close> returns,
  \<open>backprop_loop\<close> the loop over \<^verbatim>\<open>top_order\<close>. \<^verbatim>\<open>backpropagate\<close> returns nothing;
  what it does is the sequence of calls it makes on the Variables.
\<close>

fun add_grads :: "('g::{zero,plus} Variable \<times> 'g) list \<Rightarrow> (int \<rightharpoonup> 'g) \<Rightarrow> (int \<rightharpoonup> 'g)" where
  "add_grads [] cur_derivs = cur_derivs"
| "add_grads ((inp, grad) # rest) cur_derivs =
     add_grads rest
       (case cur_derivs (unique_id inp) of
          Some g \<Rightarrow> cur_derivs(unique_id inp \<mapsto> g + grad)
        | None \<Rightarrow> cur_derivs(unique_id inp \<mapsto> grad))"

definition backprop_node ::
  "'g::{zero,plus} Variable \<Rightarrow> 'g \<Rightarrow> (int \<rightharpoonup> 'g) \<times> 'g event list \<Rightarrow> (int \<rightharpoonup> 'g) \<times> 'g event list" where
  \<comment> \<open>The body of the loop once \<^verbatim>\<open>cur_der\<close> is read.\<close>
  "backprop_node node cur_der st =
     (if is_leaf node then (fst st, snd st @ [AccumulateDerivative node cur_der])
      else (add_grads (chain_rule node cur_der) (fst st), snd st @ [ChainRule node cur_der]))"

fun backprop_loop ::
  "'g::{zero,plus} Variable list \<Rightarrow> (int \<rightharpoonup> 'g) \<times> 'g event list \<Rightarrow> (int \<rightharpoonup> 'g) \<times> 'g event list" where
  "backprop_loop [] st = st"
| "backprop_loop (node # rest) (cur_derivs, calls) =
     backprop_loop rest
       (case cur_derivs (unique_id node) of
          None \<Rightarrow> backprop_node node 0 (cur_derivs(unique_id node \<mapsto> 0), calls)
        | Some cur_der \<Rightarrow> backprop_node node cur_der (cur_derivs, calls))"

definition backpropagate :: "'g::{zero,plus} Variable \<Rightarrow> 'g \<Rightarrow> 'g event list" where
  "backpropagate variable deriv =
     snd (backprop_loop (topological_sort variable) ([unique_id variable \<mapsto> deriv], []))"

section \<open>Notions used to state the properties\<close>

text \<open>
  The Variables reachable from a Variable along \<^verbatim>\<open>history.inputs\<close>, itself included.
\<close>

fun reachable :: "'g Variable \<Rightarrow> 'g Variable set" where
  "reachable (Var uid h lf cn cr) =
     insert (Var uid h lf cn cr)
       (case h of None \<Rightarrow> {} | Some inputs \<Rightarrow> (\<Union>n \<in> set inputs. reachable n))"

text \<open>
  The inputs of a Variable: those of its history, none when it has no history.
  \<open>visit_order\<close> and \<open>visit_seen\<close> name the two results of \<^verbatim>\<open>visit\<close> when it starts
  from an empty \<^verbatim>\<open>top_order\<close>: what it appends, and the \<^verbatim>\<open>visited\<close> set it leaves.
\<close>

definition history_inputs :: "'g Variable \<Rightarrow> 'g Variable list" where
  "history_inputs v = (case history v of None \<Rightarrow> [] | Some inputs \<Rightarrow> inputs)"

definition visit_order :: "'g Variable \<Rightarrow> int set \<Rightarrow> 'g Variable list" where
  "visit_order v vis = fst (visit v ([], vis))"

definition visit_seen :: "'g Variable \<Rightarrow> int set \<Rightarrow> int set" where
  "visit_seen v vis = snd (visit v ([], vis))"

definition inputs_order :: "'g Variable list \<Rightarrow> int set \<Rightarrow> 'g Variable list" where
  "inputs_order ins vis = fst (visit_inputs ins ([], vis))"

definition inputs_seen :: "'g Variable list \<Rightarrow> int set \<Rightarrow> int set" where
  "inputs_seen ins vis = snd (visit_inputs ins ([], vis))"

text \<open>
  A Variable is finished with respect to an order and a visited set when it is in the
  order if it has a history, and the ids of all its inputs are in the set.
\<close>

definition finished :: "'g Variable \<Rightarrow> 'g Variable list \<Rightarrow> int set \<Rightarrow> bool" where
  "finished n order seen \<longleftrightarrow>
     (history n \<noteq> None \<longrightarrow> n \<in> set order)
     \<and> (\<forall>m \<in> set (history_inputs n). unique_id m \<in> seen)"

text \<open>
  The calls a run of \<^verbatim>\<open>backpropagate\<close> makes on one Variable: the derivatives passed to
  its \<^verbatim>\<open>accumulate_derivative\<close>, resp. to its \<^verbatim>\<open>chain_rule\<close>, in order.
\<close>

fun accumulated :: "'g event list \<Rightarrow> 'g Variable \<Rightarrow> 'g list" where
  "accumulated [] v = []"
| "accumulated (AccumulateDerivative n g # es) v =
     (if n = v then g # accumulated es v else accumulated es v)"
| "accumulated (ChainRule n g # es) v = accumulated es v"

fun chain_rule_calls :: "'g event list \<Rightarrow> 'g Variable \<Rightarrow> 'g list" where
  "chain_rule_calls [] v = []"
| "chain_rule_calls (AccumulateDerivative n g # es) v = chain_rule_calls es v"
| "chain_rule_calls (ChainRule n g # es) v =
     (if n = v then g # chain_rule_calls es v else chain_rule_calls es v)"

fun target :: "'g event \<Rightarrow> 'g Variable" where
  "target (AccumulateDerivative n g) = n"
| "target (ChainRule n g) = n"

definition event_ok :: "'g event \<Rightarrow> bool" where
  \<comment> \<open>\<^verbatim>\<open>accumulate_derivative\<close> on a leaf, \<^verbatim>\<open>chain_rule\<close> on a Variable that is not one.\<close>
  "event_ok e =
     (case e of AccumulateDerivative n g \<Rightarrow> is_leaf n | ChainRule n g \<Rightarrow> \<not> is_leaf n)"

text \<open>
  The total derivative at \<open>x\<close> when \<open>d\<close> arrives at \<open>v\<close>: \<open>d\<close> itself at \<open>x\<close>, nothing
  below a leaf, and otherwise the sum, over the inputs of \<open>v\<close>, of the total derivative
  at \<open>x\<close> of what the chain rule of \<open>v\<close> hands to that input. Unfolded, it is the sum
  over all paths from \<open>v\<close> to \<open>x\<close> of the chain rules applied along the path.
\<close>

function total :: "'g::comm_monoid_add Variable \<Rightarrow> 'g Variable \<Rightarrow> 'g \<Rightarrow> 'g" where
  "total v x d =
     (if v = x then d
      else if is_leaf v then 0
      else sum_list (map (\<lambda>(p, g). total p x g)
                         (zip (history_inputs v) (map snd (chain_rule v d)))))"
  by pat_completeness auto
termination
proof (relation "measure (\<lambda>(v, x, d). size v)")
  show "wf (measure (\<lambda>(v, x, d). size v))" by simp
next
  fix v x :: "'g Variable" and d :: 'g and z :: "'g Variable \<times> 'g" and p g
  assume "z \<in> set (zip (history_inputs v) (map snd (chain_rule v d)))" and "(p, g) = z"
  then have "p \<in> set (history_inputs v)"
    by (auto dest: set_zip_leftD)
  then obtain ins where h: "history v = Some ins" and m: "p \<in> set ins"
    by (cases "history v") (auto simp: history_inputs_def)
  have "size p \<le> size_list size ins"
    using m by (rule size_list_estimation') simp
  moreover have "size v = size_list size ins + 2"
    using h by (cases v) simp
  ultimately show "((p, x, g), (v, x, d)) \<in> measure (\<lambda>(v, x, d). size v)"
    by simp
qed

declare total.simps [simp del]

text \<open>
  A chain rule is additive when it returns one pair for each input of the history, in
  order, and the derivatives in the pairs are additive in \<^verbatim>\<open>d_output\<close> and zero at zero.
\<close>

definition additive_chain_rule :: "'g::comm_monoid_add Variable \<Rightarrow> bool" where
  "additive_chain_rule n \<longleftrightarrow>
     (\<forall>d. map fst (chain_rule n d) = history_inputs n)
     \<and> (\<forall>a b. map snd (chain_rule n (a + b))
               = map2 (+) (map snd (chain_rule n a)) (map snd (chain_rule n b)))
     \<and> (\<forall>g \<in> set (map snd (chain_rule n 0)). g = 0)"

text \<open>
  The derivative recorded for a Variable in \<^verbatim>\<open>cur_derivs\<close>, zero when there is none, and
  the total derivative at \<open>x\<close> still held in \<^verbatim>\<open>cur_derivs\<close> by the Variables of a list.
\<close>

definition pending :: "(int \<rightharpoonup> 'g::zero) \<Rightarrow> 'g Variable \<Rightarrow> 'g" where
  "pending cur n = (case cur (unique_id n) of None \<Rightarrow> 0 | Some g \<Rightarrow> g)"

definition pending_total ::
  "'g::comm_monoid_add Variable list \<Rightarrow> (int \<rightharpoonup> 'g) \<Rightarrow> 'g Variable \<Rightarrow> 'g" where
  "pending_total ns cur x = sum_list (map (\<lambda>n. total n x (pending cur n)) ns)"

text \<open>
  A list is in topological order from a set of ids when every input with a history of
  each of its Variables has its id in the set or among the ids later in the list.
\<close>

fun topo_from :: "int set \<Rightarrow> 'g Variable list \<Rightarrow> bool" where
  "topo_from vis [] = True"
| "topo_from vis (n # rest) =
     ((\<forall>m \<in> set (history_inputs n).
         history m \<noteq> None \<longrightarrow> unique_id m \<in> vis \<union> unique_id ` set rest)
      \<and> topo_from vis rest)"

section \<open>Example graphs\<close>

text \<open>
  The linear chain \<^verbatim>\<open>y = x + 1; z = y * 2\<close> at \<^verbatim>\<open>x = 5\<close>, over integer derivatives.
  The leaf \<open>ex_x\<close> carries a history with no inputs; the literals \<^verbatim>\<open>1\<close> and \<^verbatim>\<open>2\<close>
  are constants, which carry no history. The chain rule of a sum hands the derivative
  on to both inputs, that of a product multiplies it by the other factor.
\<close>

definition ex_x :: "int Variable" where
  "ex_x = Var 1 (Some []) True False (\<lambda>d. [])"

definition ex_one :: "int Variable" where
  "ex_one = Var 2 None False True (\<lambda>d. [])"

definition ex_y :: "int Variable" where
  "ex_y = Var 3 (Some [ex_x, ex_one]) False False (\<lambda>d. [(ex_x, d), (ex_one, d)])"

definition ex_two :: "int Variable" where
  "ex_two = Var 4 None False True (\<lambda>d. [])"

definition ex_z :: "int Variable" where
  "ex_z = Var 5 (Some [ex_y, ex_two]) False False (\<lambda>d. [(ex_y, d * 2), (ex_two, d * 6)])"

text \<open>
  A leaf that carries no history, and the sum \<^verbatim>\<open>ex_bare + 1\<close>.
\<close>

definition ex_bare :: "int Variable" where
  "ex_bare = Var 6 None True False (\<lambda>d. [])"

definition ex_inc :: "int Variable" where
  "ex_inc = Var 7 (Some [ex_bare, ex_one]) False False (\<lambda>d. [(ex_bare, d), (ex_one, d)])"

text \<open>
  A constant that carries a history, and its negation.
\<close>

definition ex_frozen :: "int Variable" where
  "ex_frozen = Var 8 (Some []) False True (\<lambda>d. [])"

definition ex_neg :: "int Variable" where
  "ex_neg = Var 9 (Some [ex_frozen]) False False (\<lambda>d. [(ex_frozen, - d)])"

text \<open>
  The diamond \<^verbatim>\<open>d = b + c\<close> with \<^verbatim>\<open>b = f(x)\<close> and \<^verbatim>\<open>c = g(x)\<close> over a leaf \<open>x\<close>, where
  the local derivatives of \<^verbatim>\<open>f\<close> and \<^verbatim>\<open>g\<close> are 2 and 3.
\<close>

definition dia_b :: "int Variable \<Rightarrow> int Variable" where
  "dia_b x = Var 11 (Some [x]) False False (\<lambda>g. [(x, g * 2)])"

definition dia_c :: "int Variable \<Rightarrow> int Variable" where
  "dia_c x = Var 12 (Some [x]) False False (\<lambda>g. [(x, g * 3)])"

definition dia_d :: "int Variable \<Rightarrow> int Variable" where
  "dia_d x = Var 13 (Some [dia_b x, dia_c x]) False False (\<lambda>g. [(dia_b x, g), (dia_c x, g)])"

lemmas ex_defs = ex_x_def ex_one_def ex_y_def ex_two_def ex_z_def ex_bare_def ex_inc_def
  ex_frozen_def ex_neg_def dia_b_def dia_c_def dia_d_def

section \<open>Properties of the context\<close>

lemma save_for_backward_no_grad: "no_grad c \<Longrightarrow> save_for_backward c vs = c"
  by (simp add: save_for_backward_def)

lemma foldl_save_for_backward_no_grad:
  "no_grad c \<Longrightarrow> foldl save_for_backward c calls = c"
  by (induction calls) (simp_all add: save_for_backward_no_grad)

text \<open>
  C8, amended. On a context with \<^verbatim>\<open>no_grad = True\<close> every \<^verbatim>\<open>save_for_backward\<close>
  leaves the context as it was: whatever sequence of calls (\<open>calls\<close> lists their
  arguments) it has received, \<^verbatim>\<open>saved_tensors\<close> is the \<^verbatim>\<open>saved_values\<close> the context was
  created with, which is the empty sequence for \<^verbatim>\<open>Context(no_grad=True)\<close>.
\<close>

theorem no_grad_keeps_saved_values:
  assumes "no_grad c"
  shows "foldl save_for_backward c calls = c
         \<and> saved_tensors (foldl save_for_backward c calls) = saved_values c
         \<and> saved_tensors (foldl save_for_backward (new_Context True) calls) = []"
proof -
  have n: "foldl save_for_backward (new_Context True) calls = new_Context True"
    by (rule foldl_save_for_backward_no_grad) (simp add: new_Context_def)
  show ?thesis
    unfolding n foldl_save_for_backward_no_grad [OF assms]
    by (simp add: saved_tensors_def new_Context_def)
qed

theorem no_grad_keeps_saved_values_witness:
  "no_grad (new_Context True :: int Context)
   \<and> saved_tensors (foldl save_for_backward (new_Context True) [[1, 2], [3 :: int]]) = []"
proof -
  have h: "no_grad (new_Context True :: int Context)"
    by (simp add: new_Context_def)
  show ?thesis
    using h no_grad_keeps_saved_values [OF h, of "[[1, 2], [3]]"]
    by blast
qed

text \<open>
  C8 as stated fails for \<^verbatim>\<open>Context(no_grad=True, saved_values=(1, 2))\<close>: its
  \<^verbatim>\<open>saved_tensors\<close> is \<open>(1, 2)\<close>, before and after a call of \<^verbatim>\<open>save_for_backward\<close>.
\<close>

theorem no_grad_saved_tensors_not_empty:
  "no_grad \<lparr>no_grad = True, saved_values = [1, 2 :: int]\<rparr>
   \<and> saved_tensors \<lparr>no_grad = True, saved_values = [1, 2 :: int]\<rparr> = [1, 2]
   \<and> saved_tensors (save_for_backward \<lparr>no_grad = True, saved_values = [1, 2 :: int]\<rparr> [3])
       = [1, 2]"
  by (simp add: saved_tensors_def save_for_backward_def)



section \<open>Properties of the central difference\<close>

lemma list_update_as_map:
  "k < length xs \<Longrightarrow> xs[k := v] = map (\<lambda>i. if i = k then v else xs ! i) [0..<length xs]"
  by (rule nth_equalityI) auto

text \<open>
  C7. Let \<open>arg\<close> and \<open>epsilon\<close> be the keyword arguments of a call, \<open>0\<close> and \<open>10\<^sup>-\<^sup>6\<close>
  where left out, and let \<open>arg\<close> be a subscript of the arguments, counting from the end
  when negative. The call evaluates \<open>f\<close> twice: on the arguments with \<open>epsilon\<close> added
  at position \<open>arg\<close> and all others as given, then on the arguments with \<open>epsilon\<close>
  subtracted at that position and all others as given. It returns the first result
  minus the second, divided by \<open>2 * epsilon\<close>; that division fails when \<open>epsilon\<close> is
  zero.
\<close>

theorem central_difference_formula:
  assumes "arg = (case arg_kw of None \<Rightarrow> 0 | Some a \<Rightarrow> a)"
    and "epsilon = (case epsilon_kw of None \<Rightarrow> 1 / 1000000 | Some e \<Rightarrow> e)"
    and "- int (length vals) \<le> arg" and "arg < int (length vals)"
    and "k = (if arg < 0 then nat (int (length vals) + arg) else nat arg)"
    and "vals_plus = map (\<lambda>i. if i = k then vals ! i + epsilon else vals ! i) [0..<length vals]"
    and "vals_minus = map (\<lambda>i. if i = k then vals ! i - epsilon else vals ! i) [0..<length vals]"
  shows "central_difference_call f vals arg_kw epsilon_kw =
           ([vals_plus, vals_minus],
            if epsilon = 0 then Inl ZeroDivisionError
            else Inr ((f vals_plus - f vals_minus) / (2 * epsilon)))"
proof -
  have a: "(case arg_kw of None \<Rightarrow> default_arg | Some a \<Rightarrow> a) = arg"
    using assms(1) by (simp add: default_arg_def split: option.splits)
  have e: "(case epsilon_kw of None \<Rightarrow> default_epsilon | Some e \<Rightarrow> e) = epsilon"
    using assms(2) by (simp add: default_epsilon_def split: option.splits)
  have k: "k < length vals" and idx: "py_index vals arg = Some k"
    using assms(3,4,5) by (auto simp: py_index_def)
  have p: "vals[k := vals ! k + epsilon] = vals_plus"
    unfolding assms(6) list_update_as_map [OF k] by simp
  have m: "vals[k := vals ! k - epsilon] = vals_minus"
    unfolding assms(7) list_update_as_map [OF k] by simp
  show ?thesis
    unfolding central_difference_call_def a e
    by (simp add: central_difference_def idx Let_def p m)
qed

theorem central_difference_formula_witness:
  "central_difference_call (\<lambda>xs. xs ! 0 * xs ! 1) [3, 4] (Some (-1)) (Some (1 / 2))
     = ([[3, 9 / 2], [3, 7 / 2]], Inr 3)
   \<and> central_difference_call (\<lambda>xs. xs ! 0) [3] None None
     = ([[3000001 / 1000000], [2999999 / 1000000]], Inr 1)"
  using central_difference_formula [of "-1" "Some (-1)" "1 / 2" "Some (1 / 2)" "[3, 4]" 1
      "[3, 9 / 2]" "[3, 7 / 2]" "\<lambda>xs. xs ! 0 * xs ! 1"]
    central_difference_formula [of 0 None "1 / 1000000" None "[3]" 0
      "[3000001 / 1000000]" "[2999999 / 1000000]" "\<lambda>xs. xs ! 0"]
  by (simp add: upt_rec)

section \<open>The traversal\<close>

text \<open>
  \<^verbatim>\<open>visit\<close> only appends to \<^verbatim>\<open>top_order\<close>, so its two results are functions of the
  Variable and the \<^verbatim>\<open>visited\<close> set alone. The lemmas below give their recursion
  equations and an induction rule along them, then the facts the properties rest on:
  the visited set grows, what is appended has a history and a fresh id, and every id
  newly visited belongs to a reachable Variable that is finished.
\<close>


lemma visit_prepend:
  "visit v (pre @ fst st, snd st) = (pre @ fst (visit v st), snd (visit v st))"
  "visit_inputs ins (pre @ fst st, snd st) = (pre @ fst (visit_inputs ins st), snd (visit_inputs ins st))"
proof (induction v st and ins st arbitrary: pre and pre rule: visit_visit_inputs.induct)
  case (1 uid lf cn cr top_order visited)
  then show ?case by simp
next
  case (2 uid inputs lf cn cr top_order visited)
  show ?case
  proof (cases "uid \<in> visited")
    case True
    then show ?thesis by simp
  next
    case False
    have a: "visit_inputs inputs (pre @ top_order, insert uid visited) =
      (pre @ fst (visit_inputs inputs (top_order, insert uid visited)),
       snd (visit_inputs inputs (top_order, insert uid visited)))"
      using 2 [OF False, of pre] by simp
    show ?thesis using False
      by (simp add: a split: prod.splits)
  qed
next
  case (3 st)
  then show ?case by simp
next
  case (4 neigh rest top_order visited)
  show ?case
  proof (cases "unique_id neigh \<in> visited")
    case True
    then show ?thesis using 4(2) [of pre] by simp
  next
    case False
    have a: "visit neigh (pre @ top_order, visited) =
       (pre @ fst (visit neigh (top_order, visited)), snd (visit neigh (top_order, visited)))"
      using 4(1) [OF False, of pre] by simp
    show ?thesis using False 4(2) [of pre]
      by (simp add: a)
  qed
qed

lemma visit_eq: "visit v (pre, vis) = (pre @ visit_order v vis, visit_seen v vis)"
  using visit_prepend(1) [of v pre "([], vis)"] by (simp add: visit_order_def visit_seen_def)

lemma visit_inputs_eq: "visit_inputs ins (pre, vis) = (pre @ inputs_order ins vis, inputs_seen ins vis)"
  using visit_prepend(2) [of ins pre "([], vis)"] by (simp add: inputs_order_def inputs_seen_def)

lemma visit_order_simps:
  "unique_id v \<in> vis \<Longrightarrow> visit_order v vis = []"
  "unique_id v \<notin> vis \<Longrightarrow> history v = None \<Longrightarrow> visit_order v vis = []"
  "unique_id v \<notin> vis \<Longrightarrow> history v = Some ins \<Longrightarrow>
     visit_order v vis = inputs_order ins (insert (unique_id v) vis) @ [v]"
  by (cases v; cases "history v"; simp add: visit_order_def visit_inputs_eq)+

lemma visit_seen_simps:
  "unique_id v \<in> vis \<Longrightarrow> visit_seen v vis = vis"
  "unique_id v \<notin> vis \<Longrightarrow> history v = None \<Longrightarrow> visit_seen v vis = insert (unique_id v) vis"
  "unique_id v \<notin> vis \<Longrightarrow> history v = Some ins \<Longrightarrow>
     visit_seen v vis = inputs_seen ins (insert (unique_id v) vis)"
  by (cases v; cases "history v"; simp add: visit_seen_def visit_inputs_eq)+

lemma inputs_order_simps:
  "inputs_order [] vis = []"
  "inputs_order (n # rest) vis = visit_order n vis @ inputs_order rest (visit_seen n vis)"
proof -
  show "inputs_order [] vis = []"
    by (simp add: inputs_order_def)
  have "inputs_order (n # rest) vis = fst (visit_inputs (n # rest) ([], vis))"
    by (simp only: inputs_order_def)
  also have "\<dots> = visit_order n vis @ inputs_order rest (visit_seen n vis)"
    by (subst visit_inputs.simps) (simp add: visit_eq visit_inputs_eq visit_order_simps visit_seen_simps)
  finally show "inputs_order (n # rest) vis
                  = visit_order n vis @ inputs_order rest (visit_seen n vis)" .
qed

lemma inputs_seen_simps:
  "inputs_seen [] vis = vis"
  "inputs_seen (n # rest) vis = inputs_seen rest (visit_seen n vis)"
proof -
  show "inputs_seen [] vis = vis"
    by (simp add: inputs_seen_def)
  have "inputs_seen (n # rest) vis = snd (visit_inputs (n # rest) ([], vis))"
    by (simp only: inputs_seen_def)
  also have "\<dots> = inputs_seen rest (visit_seen n vis)"
    by (subst visit_inputs.simps) (simp add: visit_eq visit_inputs_eq visit_order_simps visit_seen_simps)
  finally show "inputs_seen (n # rest) vis = inputs_seen rest (visit_seen n vis)" .
qed

lemma visit_induct [case_names visit nil cons]:
  assumes v: "\<And>v vis. (\<And>ins. unique_id v \<notin> vis \<Longrightarrow> history v = Some ins
                          \<Longrightarrow> Q ins (insert (unique_id v) vis)) \<Longrightarrow> P v vis"
    and n: "\<And>vis. Q [] vis"
    and c: "\<And>n rest vis. P n vis \<Longrightarrow> Q rest (visit_seen n vis) \<Longrightarrow> Q (n # rest) vis"
  shows "P v0 vis0" and "Q ins0 vis0"
proof -
  have "P v0 (snd st)" and "Q ins0 (snd st)" for st :: "'a Variable list \<times> int set"
  proof (induction v0 st and ins0 st rule: visit_visit_inputs.induct)
    case (1 uid lf cn cr top_order visited)
    show ?case by (rule v) simp
  next
    case (2 uid inputs lf cn cr top_order visited)
    show ?case by (rule v) (use 2 in simp)
  next
    case (3 st)
    show ?case by (rule n)
  next
    case (4 neigh rest top_order visited)
    have p: "P neigh visited"
    proof (cases "unique_id neigh \<in> visited")
      case True
      show ?thesis by (rule v) (use True in simp)
    next
      case False
      then show ?thesis using 4(1) by simp
    qed
    have "snd (if unique_id neigh \<notin> visited then visit neigh (top_order, visited)
               else (top_order, visited)) = visit_seen neigh visited"
      by (simp add: visit_eq visit_seen_simps)
    with 4(2) have "Q rest (visit_seen neigh visited)" by simp
    with p show ?case by (simp add: c)
  qed
  from this [of "([], vis0)"] show "P v0 vis0" and "Q ins0 vis0" by simp_all
qed

lemma visit_seen_mono:
  "vis \<subseteq> visit_seen (v :: 'g Variable) vis \<and> unique_id v \<in> visit_seen v vis"
  "vis \<subseteq> inputs_seen (ins :: 'g Variable list) vis \<and> unique_id ` set ins \<subseteq> inputs_seen ins vis"
proof (induction v vis and ins vis rule: visit_induct)
  case (visit v vis)
  show ?case
  proof (cases "unique_id v \<in> vis")
    case True
    then show ?thesis by (simp add: visit_seen_simps)
  next
    case False
    show ?thesis
    proof (cases "history v")
      case None
      with False show ?thesis by (auto simp: visit_seen_simps)
    next
      case (Some ins)
      with False visit [OF False Some] show ?thesis by (auto simp: visit_seen_simps)
    qed
  qed
next
  case (nil vis)
  then show ?case by (simp add: inputs_seen_simps)
next
  case (cons n rest vis)
  then show ?case by (auto simp: inputs_seen_simps)
qed

lemma reachable_self: "v \<in> reachable v"
  by (cases v) simp

lemma reachable_unfold:
  "reachable v = insert v (\<Union>n \<in> set (history_inputs v). reachable n)"
  by (cases v) (simp add: history_inputs_def split: option.splits)

lemma reachable_input:
  "m \<in> set (history_inputs v) \<Longrightarrow> reachable m \<subseteq> reachable v"
  by (subst (2) reachable_unfold) auto

lemma history_inputs_Some: "history v = Some ins \<Longrightarrow> history_inputs v = ins"
  by (simp add: history_inputs_def)

lemma history_inputs_None: "history v = None \<Longrightarrow> history_inputs v = []"
  by (simp add: history_inputs_def)

lemma reachable_closed_subset:
  assumes "\<And>n m. n \<in> S \<Longrightarrow> m \<in> set (history_inputs n) \<Longrightarrow> m \<in> S"
  shows "v \<in> S \<Longrightarrow> reachable v \<subseteq> S"
proof (induction v rule: reachable.induct)
  case (1 uid h lf cn cr)
  let ?v = "Var uid h lf cn cr"
  have "reachable m \<subseteq> S" if "m \<in> set (history_inputs ?v)" for m
  proof -
    from that obtain ins where h: "h = Some ins" and m: "m \<in> set ins"
      by (cases h) (auto simp: history_inputs_def)
    from assms [OF "1.prems" that] have "m \<in> S" .
    then show ?thesis using "1.IH" [OF h m] by simp
  qed
  with "1.prems" show ?case
    by (subst reachable_unfold) auto
qed

lemma reachable_cases:
  "n \<in> reachable v \<Longrightarrow> n = v \<or> (\<exists>m \<in> set (history_inputs v). n \<in> reachable m)"
  by (cases v) (auto simp: history_inputs_def split: option.splits)

lemma reachable_trans: "n \<in> reachable v \<Longrightarrow> reachable n \<subseteq> reachable v"
proof (induction v rule: reachable.induct)
  case (1 uid h lf cn cr)
  let ?v = "Var uid h lf cn cr"
  from reachable_cases [OF "1.prems"]
  consider "n = ?v" | m where "m \<in> set (history_inputs ?v)" "n \<in> reachable m"
    by blast
  then show ?case
  proof cases
    case 1
    then show ?thesis by simp
  next
    case 2
    from 2(1) obtain ins where h: "h = Some ins" and m: "m \<in> set ins"
      by (cases h) (auto simp: history_inputs_def)
    have "reachable n \<subseteq> reachable m" using "1.IH" [OF h m 2(2)] .
    also have "\<dots> \<subseteq> reachable ?v" using 2(1) by (rule reachable_input)
    finally show ?thesis .
  qed
qed

lemma size_history_input: "m \<in> set (history_inputs v) \<Longrightarrow> size m < size v"
proof -
  assume a: "m \<in> set (history_inputs v)"
  then obtain ins where h: "history v = Some ins" and m: "m \<in> set ins"
    by (cases "history v") (auto simp: history_inputs_def)
  have "size m \<le> size_list size ins"
    using m by (rule size_list_estimation') simp
  moreover have "size v = size_list size ins + 2"
    using h by (cases v) simp
  ultimately show ?thesis by simp
qed

lemma reachable_size: "n \<in> reachable v \<Longrightarrow> n \<noteq> v \<Longrightarrow> size n < size v"
proof (induction v rule: reachable.induct)
  case (1 uid h lf cn cr)
  let ?v = "Var uid h lf cn cr"
  from reachable_cases [OF "1.prems"(1)] "1.prems"(2)
  obtain m where mi: "m \<in> set (history_inputs ?v)" and nm: "n \<in> reachable m"
    by blast
  from mi obtain ins where h: "h = Some ins" and m: "m \<in> set ins"
    by (cases h) (auto simp: history_inputs_def)
  have "size m < size ?v"
    using mi by (rule size_history_input)
  moreover have "size n \<le> size m"
    using "1.IH" [OF h m nm] by (cases "n = m") auto
  ultimately show ?case by simp
qed

lemma visit_order_props:
  "(\<forall>n \<in> set (visit_order (v :: 'g Variable) vis).
      n \<in> reachable v \<and> history n \<noteq> None \<and> unique_id n \<notin> vis \<and> unique_id n \<in> visit_seen v vis)
   \<and> distinct (map unique_id (visit_order v vis))"
  "(\<forall>n \<in> set (inputs_order (ins :: 'g Variable list) vis).
      n \<in> (\<Union>m \<in> set ins. reachable m) \<and> history n \<noteq> None \<and> unique_id n \<notin> vis
      \<and> unique_id n \<in> inputs_seen ins vis)
   \<and> distinct (map unique_id (inputs_order ins vis))"
proof (induction v vis and ins vis rule: visit_induct)
  case (visit v vis)
  show ?case
  proof (cases "unique_id v \<in> vis")
    case True
    then show ?thesis by (simp add: visit_order_simps)
  next
    case False
    show ?thesis
    proof (cases "history v")
      case None
      with False show ?thesis by (simp add: visit_order_simps)
    next
      case (Some ins)
      note IH = visit [OF False Some]
      have ord: "visit_order v vis = inputs_order ins (insert (unique_id v) vis) @ [v]"
        and seen: "visit_seen v vis = inputs_seen ins (insert (unique_id v) vis)"
        using False Some by (simp_all add: visit_order_simps visit_seen_simps)
      have sub: "(\<Union>m \<in> set ins. reachable m) \<subseteq> reachable v"
        using reachable_input [of _ v] Some by (auto simp: history_inputs_Some)
      have self: "unique_id v \<in> visit_seen v vis"
        using visit_seen_mono(1) by blast
      show ?thesis
        unfolding ord seen [symmetric]
        using IH sub self Some False reachable_self [of v]
        by (auto simp: seen)
    qed
  qed
next
  case (nil vis)
  then show ?case by (simp add: inputs_order_simps)
next
  case (cons n rest vis)
  have m1: "vis \<subseteq> visit_seen n vis"
    using visit_seen_mono(1) by blast
  have m2: "visit_seen n vis \<subseteq> inputs_seen rest (visit_seen n vis)"
    using visit_seen_mono(2) by blast
  show ?case
    unfolding inputs_order_simps inputs_seen_simps
    using cons m1 m2 by (auto 4 3)
qed

lemma finished_mono:
  "finished n order seen \<Longrightarrow> set order \<subseteq> set order' \<Longrightarrow> seen \<subseteq> seen' \<Longrightarrow> finished n order' seen'"
  by (auto simp: finished_def)

lemma visit_closure:
  "\<forall>i \<in> visit_seen (v :: 'g Variable) vis - vis.
      \<exists>n \<in> reachable v. unique_id n = i \<and> finished n (visit_order v vis) (visit_seen v vis)"
  "\<forall>i \<in> inputs_seen (ins :: 'g Variable list) vis - vis.
      \<exists>n \<in> (\<Union>m \<in> set ins. reachable m).
         unique_id n = i \<and> finished n (inputs_order ins vis) (inputs_seen ins vis)"
proof (induction v vis and ins vis rule: visit_induct)
  case (visit v vis)
  show ?case
  proof (cases "unique_id v \<in> vis")
    case True
    then show ?thesis by (simp add: visit_seen_simps)
  next
    case False
    show ?thesis
    proof (cases "history v")
      case None
      with False show ?thesis
        using reachable_self [of v]
        by (auto simp: visit_seen_simps finished_def history_inputs_None)
    next
      case (Some ins)
      note IH = visit [OF False Some]
      have ord: "visit_order v vis = inputs_order ins (insert (unique_id v) vis) @ [v]"
        and seen: "visit_seen v vis = inputs_seen ins (insert (unique_id v) vis)"
        using False Some by (simp_all add: visit_order_simps visit_seen_simps)
      have sub: "(\<Union>m \<in> set ins. reachable m) \<subseteq> reachable v"
        using reachable_input [of _ v] Some by (auto simp: history_inputs_Some)
      have ins_seen: "unique_id ` set ins \<subseteq> visit_seen v vis"
        unfolding seen using visit_seen_mono(2) by blast
      show ?thesis
      proof
        fix i assume i: "i \<in> visit_seen v vis - vis"
        show "\<exists>n \<in> reachable v. unique_id n = i \<and> finished n (visit_order v vis) (visit_seen v vis)"
        proof (cases "i = unique_id v")
          case True
          have "finished v (visit_order v vis) (visit_seen v vis)"
            using ins_seen by (auto simp: finished_def ord history_inputs_Some [OF Some])
          with True reachable_self [of v] show ?thesis by blast
        next
          case False
          with i have "i \<in> inputs_seen ins (insert (unique_id v) vis) - insert (unique_id v) vis"
            by (simp add: seen)
          with IH obtain n where n: "n \<in> (\<Union>m \<in> set ins. reachable m)" "unique_id n = i"
            "finished n (inputs_order ins (insert (unique_id v) vis)) (visit_seen v vis)"
            unfolding seen by blast
          have "finished n (visit_order v vis) (visit_seen v vis)"
            using n(3) by (rule finished_mono) (auto simp: ord)
          with n sub show ?thesis by blast
        qed
      qed
    qed
  qed
next
  case (nil vis)
  then show ?case by (simp add: inputs_seen_simps)
next
  case (cons n rest vis)
  have m2: "visit_seen n vis \<subseteq> inputs_seen rest (visit_seen n vis)"
    using visit_seen_mono(2) by blast
  show ?case
  proof
    fix i assume i: "i \<in> inputs_seen (n # rest) vis - vis"
    let ?goal = "\<exists>k \<in> (\<Union>m \<in> set (n # rest). reachable m).
         unique_id k = i \<and> finished k (inputs_order (n # rest) vis) (inputs_seen (n # rest) vis)"
    show ?goal
    proof (cases "i \<in> visit_seen n vis")
      case True
      with i cons(1) obtain k where k: "k \<in> reachable n" "unique_id k = i"
        "finished k (visit_order n vis) (visit_seen n vis)"
        by blast
      have "finished k (inputs_order (n # rest) vis) (inputs_seen (n # rest) vis)"
        using k(3) by (rule finished_mono) (simp_all add: inputs_order_simps inputs_seen_simps m2)
      with k show ?thesis by auto
    next
      case False
      with i have "i \<in> inputs_seen rest (visit_seen n vis) - visit_seen n vis"
        by (simp add: inputs_seen_simps)
      with cons(2) obtain k where k: "k \<in> (\<Union>m \<in> set rest. reachable m)" "unique_id k = i"
        "finished k (inputs_order rest (visit_seen n vis)) (inputs_seen rest (visit_seen n vis))"
        by blast
      have "finished k (inputs_order (n # rest) vis) (inputs_seen (n # rest) vis)"
        using k(3) by (rule finished_mono) (simp_all add: inputs_order_simps inputs_seen_simps)
      with k show ?thesis by auto
    qed
  qed
qed

lemma visit_complete:
  assumes inj: "inj_on unique_id (reachable r)"
  shows "unique_id ` reachable r \<subseteq> visit_seen r {}"
    and "{n \<in> reachable r. history n \<noteq> None} \<subseteq> set (visit_order r {})"
proof -
  let ?seen = "visit_seen r {}" and ?ord = "visit_order r {}"
  have fin: "finished n ?ord ?seen" if "n \<in> reachable r" "unique_id n \<in> ?seen" for n
  proof -
    from visit_closure(1) [of r "{}"] that(2)
    obtain k where k: "k \<in> reachable r" "unique_id k = unique_id n" "finished k ?ord ?seen"
      by auto
    from inj k(1,2) that(1) have "k = n" by (auto dest: inj_onD)
    with k(3) show ?thesis by simp
  qed
  let ?S = "{n \<in> reachable r. unique_id n \<in> ?seen}"
  have "reachable r \<subseteq> ?S"
  proof (rule reachable_closed_subset)
    fix n m assume n: "n \<in> ?S" and m: "m \<in> set (history_inputs n)"
    from n fin have "finished n ?ord ?seen" by simp
    with m have "unique_id m \<in> ?seen" by (simp add: finished_def)
    moreover have "m \<in> reachable r"
      using reachable_trans [of n r] reachable_input [OF m] reachable_self [of m] n by auto
    ultimately show "m \<in> ?S" by simp
  next
    show "r \<in> ?S"
      using reachable_self [of r] visit_seen_mono(1) [of "{}" r] by simp
  qed
  then show "unique_id ` reachable r \<subseteq> ?seen" by auto
  with fin show "{n \<in> reachable r. history n \<noteq> None} \<subseteq> set ?ord"
    by (auto simp: finished_def)
qed

lemma distinct_count_list_le1: "distinct xs \<Longrightarrow> count_list xs x \<le> 1"
  by (induction xs) auto

lemma topological_sort_eq:
  "topological_sort r = rev (visit_order r {}) @ [r]"
  by (simp add: topological_sort_def visit_eq)

section \<open>The loop of backpropagate\<close>

text \<open>
  Each round of the loop makes one call, on the Variable it processes.
\<close>


lemma backprop_step_event:
  "\<exists>cur' e. (case cur (unique_id n) of
                 None \<Rightarrow> backprop_node n 0 (cur(unique_id n \<mapsto> 0), calls)
               | Some cur_der \<Rightarrow> backprop_node n cur_der (cur, calls)) = (cur', calls @ [e])
            \<and> event_ok e \<and> target e = n"
  by (simp add: backprop_node_def event_ok_def split: option.splits)

lemma backprop_loop_calls:
  "set (snd (backprop_loop ns (cur, calls)))
     \<subseteq> set calls \<union> {e. event_ok e \<and> target e \<in> set ns}"
proof (induction ns arbitrary: cur calls)
  case Nil
  then show ?case by simp
next
  case (Cons n ns)
  obtain cur' e where
    step: "(case cur (unique_id n) of
              None \<Rightarrow> backprop_node n 0 (cur(unique_id n \<mapsto> 0), calls)
            | Some cur_der \<Rightarrow> backprop_node n cur_der (cur, calls)) = (cur', calls @ [e])"
    and ok: "event_ok e" "target e = n"
    using backprop_step_event by blast
  have "set (snd (backprop_loop ns (cur', calls @ [e])))
          \<subseteq> set (calls @ [e]) \<union> {e. event_ok e \<and> target e \<in> set ns}"
    by (rule Cons.IH)
  with ok show ?case
    by (auto simp: step)
qed

lemma backpropagate_events:
  "e \<in> set (backpropagate variable deriv)
     \<Longrightarrow> event_ok e \<and> target e \<in> set (topological_sort variable)"
  using backprop_loop_calls [of "topological_sort variable" "[unique_id variable \<mapsto> deriv]" "[]"]
  by (auto simp: backpropagate_def)

lemma topological_sort_members:
  "n \<in> set (topological_sort variable) \<Longrightarrow> n = variable \<or> (n \<in> reachable variable \<and> history n \<noteq> None)"
  using visit_order_props(1) [of variable "{}"] by (auto simp: topological_sort_eq)

section \<open>Derivatives pending in the loop\<close>

text \<open>
  The total derivative is additive when the chain rules are. The reversed post-order of
  the traversal is a topological order, and along such an order the loop keeps the
  total derivative pending for a leaf unchanged until the leaf itself is processed.
\<close>


lemma sum_list_all_zero:
  fixes ys :: "'g::comm_monoid_add list"
  shows "(\<And>y. y \<in> set ys \<Longrightarrow> y = 0) \<Longrightarrow> sum_list ys = 0"
  by (induction ys) simp_all

lemma total_self: "total x x d = d"
  by (simp add: total.simps)

lemma total_leaf: "v \<noteq> x \<Longrightarrow> is_leaf v \<Longrightarrow> total v x d = 0"
  by (simp add: total.simps)

lemma total_no_history: "v \<noteq> x \<Longrightarrow> history v = None \<Longrightarrow> total v x d = 0"
  by (simp add: total.simps [of v] history_inputs_None)

lemma total_unfold:
  "v \<noteq> x \<Longrightarrow> \<not> is_leaf v \<Longrightarrow>
   total v x d = sum_list (map (\<lambda>(p, g). total p x g)
                            (zip (history_inputs v) (map snd (chain_rule v d))))"
  by (subst total.simps) simp

lemma total_unreachable: "x \<notin> reachable v \<Longrightarrow> total v x d = 0"
proof (induction v x d rule: total.induct)
  case (1 v x d)
  have ne: "v \<noteq> x" using "1.prems" reachable_self [of v] by auto
  show ?case
  proof (cases "is_leaf v")
    case True
    with ne show ?thesis by (simp add: total_leaf)
  next
    case False
    have "total p x g = 0"
      if "(p, g) \<in> set (zip (history_inputs v) (map snd (chain_rule v d)))" for p g
    proof -
      from that have "p \<in> set (history_inputs v)" by (auto dest: set_zip_leftD)
      then have "x \<notin> reachable p" using "1.prems" reachable_input [of p v] by auto
      then show ?thesis using "1.IH" [OF ne False that] by simp
    qed
    then have "sum_list (map (\<lambda>(p, g). total p x g)
                  (zip (history_inputs v) (map snd (chain_rule v d)))) = 0"
      by (intro sum_list_all_zero) auto
    with ne False show ?thesis by (simp add: total.simps [of v])
  qed
qed

lemma sum_zip_add:
  fixes f :: "'a \<Rightarrow> 'g::comm_monoid_add \<Rightarrow> 'g"
  assumes "length ga = length ins" "length gb = length ins"
    and "\<And>p g h. p \<in> set ins \<Longrightarrow> f p (g + h) = f p g + f p h"
  shows "sum_list (map (\<lambda>(p, g). f p g) (zip ins (map2 (+) ga gb)))
         = sum_list (map (\<lambda>(p, g). f p g) (zip ins ga))
           + sum_list (map (\<lambda>(p, g). f p g) (zip ins gb))"
proof -
  have "length ins = length ga" "length ga = length gb"
    using assms(1,2) by simp_all
  then show ?thesis using assms(3)
  proof (induction ins ga gb rule: list_induct3)
    case Nil
    then show ?case by simp
  next
    case (Cons p ins g ga h gb)
    then show ?case by (simp add: ac_simps)
  qed
qed

lemma sum_zip_zero:
  fixes f :: "'a \<Rightarrow> 'g::comm_monoid_add \<Rightarrow> 'g"
  assumes "\<forall>g \<in> set gs. g = 0" and "\<And>p. p \<in> set ins \<Longrightarrow> f p 0 = 0"
  shows "sum_list (map (\<lambda>(p, g). f p g) (zip ins gs)) = 0"
proof (rule sum_list_all_zero)
  fix y assume "y \<in> set (map (\<lambda>(p, g). f p g) (zip ins gs))"
  then obtain p g where "(p, g) \<in> set (zip ins gs)" "y = f p g" by auto
  then have "p \<in> set ins" "g \<in> set gs" by (auto dest: set_zip_leftD set_zip_rightD)
  with assms \<open>y = f p g\<close> show "y = 0" by auto
qed

lemma total_additive:
  fixes v :: "'g::comm_monoid_add Variable"
  assumes "\<forall>n \<in> reachable v. \<not> is_leaf n \<longrightarrow> history n \<noteq> None \<longrightarrow> additive_chain_rule n"
  shows "total v x (a + b) = total v x a + total v x b \<and> total v x 0 = 0"
  using assms
proof (induction v arbitrary: a b rule: reachable.induct)
  case (1 uid h lf cn cr)
  let ?v = "Var uid h lf cn cr"
  show ?case
  proof (cases "?v = x \<or> is_leaf ?v \<or> h = None")
    case True
    then consider "?v = x" | "?v \<noteq> x" "is_leaf ?v" | "?v \<noteq> x" "history ?v = None"
      by auto
    then show ?thesis
      by cases (simp_all add: total_self total_leaf total_no_history)
  next
    case False
    then obtain ins where h: "h = Some ins" by auto
    from False have ne: "?v \<noteq> x" and nl: "\<not> is_leaf ?v" by auto
    have hi: "history_inputs ?v = ins"
      using h by (simp add: history_inputs_def)
    have add: "additive_chain_rule ?v"
      using "1.prems" reachable_self [of ?v] nl h by auto
    have len: "length (map snd (chain_rule ?v d)) = length ins" for d
    proof -
      have "length (map fst (chain_rule ?v d)) = length ins"
        using add hi unfolding additive_chain_rule_def by metis
      then show ?thesis by simp
    qed
    have sub: "\<forall>n \<in> reachable p. \<not> is_leaf n \<longrightarrow> history n \<noteq> None \<longrightarrow> additive_chain_rule n"
      if "p \<in> set ins" for p
      using that "1.prems" reachable_input [of p ?v] hi by auto
    have IH: "total p x (g + k) = total p x g + total p x k" "total p x 0 = 0"
      if "p \<in> set ins" for p g k
      using "1.IH" [OF h that sub [OF that]] by simp_all
    have unf: "total ?v x d = sum_list (map (\<lambda>(p, g). total p x g)
                                 (zip ins (map snd (chain_rule ?v d))))" for d
      by (simp only: total_unfold [OF ne nl] hi)
    have split: "map snd (chain_rule ?v (a + b))
                 = map2 (+) (map snd (chain_rule ?v a)) (map snd (chain_rule ?v b))"
      using add unfolding additive_chain_rule_def by blast
    have zero: "\<forall>g \<in> set (map snd (chain_rule ?v 0)). g = 0"
      using add unfolding additive_chain_rule_def by blast
    have "total ?v x (a + b) = total ?v x a + total ?v x b"
      unfolding unf split
      by (rule sum_zip_add) (simp_all only: len IH)
    moreover have "total ?v x 0 = 0"
      unfolding unf using zero by (rule sum_zip_zero) (rule IH(2))
    ultimately show ?thesis by simp
  qed
qed

lemma accumulated_append:
  "accumulated (es @ fs) x = accumulated es x @ accumulated fs x"
  by (induction es x rule: accumulated.induct) simp_all

lemma backprop_loop_append:
  "backprop_loop (ns @ ms) st = backprop_loop ms (backprop_loop ns st)"
proof (induction ns arbitrary: st)
  case Nil
  then show ?case by simp
next
  case (Cons n ns)
  then show ?case by (cases st) simp
qed

lemma backprop_step_pending:
  "(case cur (unique_id n) of
      None \<Rightarrow> backprop_node n 0 (cur(unique_id n \<mapsto> 0), calls)
    | Some cur_der \<Rightarrow> backprop_node n cur_der (cur, calls))
   = backprop_node n (pending cur n) (cur(unique_id n \<mapsto> pending cur n), calls)"
proof (cases "cur (unique_id n)")
  case None
  then show ?thesis by (simp add: pending_def)
next
  case (Some g)
  then have "cur(unique_id n \<mapsto> g) = cur" by (rule map_upd_triv)
  with Some show ?thesis by (simp add: pending_def)
qed

lemma backprop_loop_Cons:
  "backprop_loop (n # rest) (cur, calls) =
     backprop_loop rest
       (backprop_node n (pending cur n) (cur(unique_id n \<mapsto> pending cur n), calls))"
  by (simp only: backprop_loop.simps backprop_step_pending)

lemma accumulated_not_member:
  "x \<notin> set ns \<Longrightarrow> accumulated (snd (backprop_loop ns (cur, calls))) x = accumulated calls x"
proof (induction ns arbitrary: cur calls)
  case Nil
  then show ?case by simp
next
  case (Cons n ns)
  from Cons.prems have ne: "n \<noteq> x" and nm: "x \<notin> set ns" by auto
  show ?case
  proof (cases "is_leaf n")
    case True
    then show ?thesis
      using Cons.IH [OF nm] ne
      unfolding backprop_loop_Cons
      by (simp add: backprop_node_def accumulated_append)
  next
    case False
    then show ?thesis
      using Cons.IH [OF nm] ne
      unfolding backprop_loop_Cons
      by (simp add: backprop_node_def accumulated_append)
  qed
qed

lemma pending_update_other:
  "unique_id n \<noteq> i \<Longrightarrow> pending (cur(i \<mapsto> g)) n = pending cur n"
  by (simp add: pending_def)

lemma pending_total_Nil: "pending_total [] cur x = 0"
  by (simp add: pending_total_def)

lemma pending_total_Cons:
  "pending_total (n # ns) cur x = total n x (pending cur n) + pending_total ns cur x"
  by (simp add: pending_total_def)

lemma pending_total_update_other:
  "i \<notin> unique_id ` set ns \<Longrightarrow> pending_total ns (cur(i \<mapsto> g)) x = pending_total ns cur x"
proof (induction ns)
  case Nil
  then show ?case by (simp add: pending_total_Nil)
next
  case (Cons n ns)
  from Cons.prems have ne: "unique_id n \<noteq> i" and ni: "i \<notin> unique_id ` set ns" by auto
  have h: "pending (cur(i \<mapsto> g)) n = pending cur n"
    using ne by (rule pending_update_other)
  show ?case
    by (simp only: pending_total_Cons h Cons.IH [OF ni])
qed

lemma pending_total_update_add:
  assumes "distinct (map unique_id ns)" and "p \<in> set ns"
    and "\<And>a b. total p x (a + b) = total p x a + total p x b"
  shows "pending_total ns (cur(unique_id p \<mapsto> pending cur p + g)) x
         = pending_total ns cur x + total p x g"
  using assms(1,2)
proof (induction ns)
  case Nil
  then show ?case by simp
next
  case (Cons n ns)
  let ?cur = "cur(unique_id p \<mapsto> pending cur p + g)"
  show ?case
  proof (cases "n = p")
    case True
    have "unique_id p \<notin> unique_id ` set ns"
      using Cons.prems(1) True by auto
    then have r: "pending_total ns ?cur x = pending_total ns cur x"
      by (rule pending_total_update_other)
    have h: "pending ?cur p = pending cur p + g"
      by (simp add: pending_def)
    show ?thesis
      unfolding True pending_total_Cons r h assms(3) by (simp add: ac_simps)
  next
    case False
    with Cons.prems have p: "p \<in> set ns" and d: "distinct (map unique_id ns)" by auto
    have "unique_id n \<noteq> unique_id p"
      using Cons.prems(1) p by auto
    then have h: "pending ?cur n = pending cur n"
      by (rule pending_update_other)
    show ?thesis
      unfolding pending_total_Cons h Cons.IH [OF d p] by (simp add: ac_simps)
  qed
qed

lemma add_grads_Cons:
  fixes cur :: "int \<rightharpoonup> 'g::comm_monoid_add"
  shows "add_grads ((inp, grad) # rest) cur
     = add_grads rest (cur(unique_id inp \<mapsto> pending cur inp + grad))"
  by (simp add: pending_def split: option.splits)

lemma add_grads_pending_total:
  assumes "distinct (map unique_id ns)"
    and "\<And>p g. (p, g) \<in> set ps \<Longrightarrow>
           (p \<in> set ns \<and> (\<forall>a b. total p x (a + b) = total p x a + total p x b))
           \<or> (unique_id p \<notin> unique_id ` set ns \<and> total p x g = 0)"
  shows "pending_total ns (add_grads ps cur) x
         = pending_total ns cur x + sum_list (map (\<lambda>(p, g). total p x g) ps)"
  using assms(2)
proof (induction ps arbitrary: cur)
  case Nil
  then show ?case by simp
next
  case (Cons pg ps)
  obtain p g where pg: "pg = (p, g)" by (cases pg)
  let ?cur = "cur(unique_id p \<mapsto> pending cur p + g)"
  have rest: "pending_total ns (add_grads ps ?cur) x
              = pending_total ns ?cur x + sum_list (map (\<lambda>(p, g). total p x g) ps)"
    by (rule Cons.IH) (use Cons.prems in auto)
  have step: "pending_total ns ?cur x = pending_total ns cur x + total p x g"
  proof -
    from Cons.prems [of p g] pg
    consider "p \<in> set ns" "\<forall>a b. total p x (a + b) = total p x a + total p x b"
      | "unique_id p \<notin> unique_id ` set ns" "total p x g = 0"
      by auto
    then show ?thesis
    proof cases
      case 1
      then show ?thesis using pending_total_update_add [OF assms(1)] by blast
    next
      case 2
      then show ?thesis by (simp add: pending_total_update_other)
    qed
  qed
  show ?case
    unfolding pg add_grads_Cons rest step by (simp add: ac_simps)
qed

lemma topo_from_append:
  "topo_from vis (as @ bs) \<longleftrightarrow> topo_from (vis \<union> unique_id ` set bs) as \<and> topo_from vis bs"
  by (induction as) (auto simp: image_Un)

lemma topo_from_weaken:
  assumes "topo_from vis1 as"
    and "\<And>n m. n \<in> set as \<Longrightarrow> m \<in> set (history_inputs n) \<Longrightarrow> history m \<noteq> None
           \<Longrightarrow> unique_id m \<in> vis1 \<Longrightarrow> unique_id m \<in> vis2"
  shows "topo_from vis2 as"
  using assms
proof (induction as)
  case Nil
  then show ?case by simp
next
  case (Cons a as)
  have "topo_from vis2 as"
    using Cons.IH Cons.prems by auto
  moreover have "unique_id m \<in> vis2 \<union> unique_id ` set as"
    if "m \<in> set (history_inputs a)" "history m \<noteq> None" for m
    using Cons.prems(1) Cons.prems(2) [of a m] that by auto
  ultimately show ?case by simp
qed

lemma input_reachable_proper:
  assumes "n \<in> reachable v" and "m \<in> set (history_inputs n)"
  shows "m \<in> reachable v \<and> m \<noteq> v"
proof -
  have "m \<in> reachable n"
    using reachable_input [OF assms(2)] reachable_self [of m] by auto
  then have mv: "m \<in> reachable v"
    using reachable_trans [OF assms(1)] by auto
  have "size m < size n" using assms(2) by (rule size_history_input)
  moreover have "size n \<le> size v"
    using reachable_size [OF assms(1)] by (cases "n = v") auto
  ultimately have "m \<noteq> v" by auto
  with mv show ?thesis by simp
qed

lemma visit_topo:
  "inj_on unique_id (reachable (v :: 'g Variable)) \<Longrightarrow> topo_from vis (rev (visit_order v vis))"
  "inj_on unique_id (\<Union>m \<in> set (ins :: 'g Variable list). reachable m)
     \<Longrightarrow> topo_from vis (rev (inputs_order ins vis))"
proof (induction v vis and ins vis rule: visit_induct)
  case (visit v vis)
  note inj = visit.prems
  show ?case
  proof (cases "unique_id v \<in> vis")
    case True
    then show ?thesis by (simp add: visit_order_simps)
  next
    case False
    show ?thesis
    proof (cases "history v")
      case None
      with False show ?thesis by (simp add: visit_order_simps)
    next
      case (Some ins)
      let ?vis1 = "insert (unique_id v) vis"
      let ?ord = "inputs_order ins ?vis1"
      have ord: "visit_order v vis = ?ord @ [v]"
        using False Some by (simp add: visit_order_simps)
      have hi: "history_inputs v = ins"
        using Some by (rule history_inputs_Some)
      have sub: "(\<Union>m \<in> set ins. reachable m) \<subseteq> reachable v"
        using reachable_input [of _ v] hi by auto
      have inj': "inj_on unique_id (\<Union>m \<in> set ins. reachable m)"
        using inj sub by (rule inj_on_subset)
      have IH: "topo_from ?vis1 (rev ?ord)"
        using visit.IH [OF False Some inj'] .
      have ne: "unique_id m \<noteq> unique_id v" if "m \<in> reachable v" "m \<noteq> v" for m
        using inj that reachable_self [of v] by (auto dest: inj_onD)
      have rest: "topo_from vis (rev ?ord)"
        using IH
      proof (rule topo_from_weaken)
        fix n m
        assume n: "n \<in> set (rev ?ord)" and m: "m \<in> set (history_inputs n)"
          and mv: "unique_id m \<in> ?vis1"
        from n have "n \<in> (\<Union>m \<in> set ins. reachable m)"
          using visit_order_props(2) [of ins ?vis1] by auto
        with sub have "n \<in> reachable v" by auto
        from input_reachable_proper [OF this m] ne have "unique_id m \<noteq> unique_id v" by blast
        with mv show "unique_id m \<in> vis" by simp
      qed
      have head: "unique_id m \<in> vis \<union> unique_id ` set (rev ?ord)"
        if m: "m \<in> set (history_inputs v)" and hm: "history m \<noteq> None" for m
      proof -
        have mi: "m \<in> set ins" using m hi by simp
        have mr: "m \<in> (\<Union>m \<in> set ins. reachable m)"
          using mi reachable_self [of m] by auto
        have "unique_id m \<in> inputs_seen ins ?vis1"
          using visit_seen_mono(2) [of ?vis1 ins] mi by auto
        moreover have "unique_id m \<noteq> unique_id v"
          using input_reachable_proper [OF reachable_self m] ne by blast
        ultimately consider "unique_id m \<in> vis" | "unique_id m \<in> inputs_seen ins ?vis1 - ?vis1"
          by auto
        then show ?thesis
        proof cases
          case 1
          then show ?thesis by simp
        next
          case 2
          with visit_closure(2) [of ins ?vis1]
          obtain k where k: "k \<in> (\<Union>m \<in> set ins. reachable m)" "unique_id k = unique_id m"
            "finished k ?ord (inputs_seen ins ?vis1)"
            by blast
          from inj' k(1,2) mr have "k = m" by (auto dest: inj_onD)
          with k(3) hm have "m \<in> set ?ord" by (simp add: finished_def)
          then show ?thesis by auto
        qed
      qed
      show ?thesis
        unfolding ord using rest head by simp
    qed
  qed
next
  case (nil vis)
  then show ?case by (simp add: inputs_order_simps)
next
  case (cons n rest vis)
  note inj = cons.prems
  let ?vis1 = "visit_seen n vis"
  have inj1: "inj_on unique_id (reachable n)"
    using inj by (rule inj_on_subset) auto
  have inj2: "inj_on unique_id (\<Union>m \<in> set rest. reachable m)"
    using inj by (rule inj_on_subset) auto
  have t1: "topo_from vis (rev (visit_order n vis))"
    using cons.IH(1) [OF inj1] .
  have t2: "topo_from ?vis1 (rev (inputs_order rest ?vis1))"
    using cons.IH(2) [OF inj2] .
  have t2': "topo_from (vis \<union> unique_id ` set (rev (visit_order n vis)))
               (rev (inputs_order rest ?vis1))"
    using t2
  proof (rule topo_from_weaken)
    fix k m
    assume k: "k \<in> set (rev (inputs_order rest ?vis1))" and m: "m \<in> set (history_inputs k)"
      and hm: "history m \<noteq> None" and mv: "unique_id m \<in> ?vis1"
    from k obtain r where r: "r \<in> set rest" "k \<in> reachable r"
      using visit_order_props(2) [of rest ?vis1] by auto
    have mr: "m \<in> reachable r"
      using input_reachable_proper [OF r(2) m] by simp
    show "unique_id m \<in> vis \<union> unique_id ` set (rev (visit_order n vis))"
    proof (cases "unique_id m \<in> vis")
      case True
      then show ?thesis by simp
    next
      case False
      with mv visit_closure(1) [of n vis]
      obtain j where j: "j \<in> reachable n" "unique_id j = unique_id m"
        "finished j (visit_order n vis) ?vis1"
        by blast
      from inj j(1,2) mr r(1) have "j = m" by (auto dest!: inj_onD)
      with j(3) hm have "m \<in> set (visit_order n vis)" by (simp add: finished_def)
      then show ?thesis by auto
    qed
  qed
  show ?case
    unfolding inputs_order_simps rev_append topo_from_append using t1 t2' by simp
qed

lemma topo_from_closed:
  assumes "inj_on unique_id U" and "\<And>n. n \<in> U \<Longrightarrow> reachable n \<subseteq> U"
  shows "topo_from {} ns \<Longrightarrow> set ns \<subseteq> U \<Longrightarrow> n \<in> set ns \<Longrightarrow> m \<in> reachable n
           \<Longrightarrow> history m \<noteq> None \<Longrightarrow> m \<in> set ns"
proof (induction ns arbitrary: n m)
  case Nil
  then show ?case by simp
next
  case (Cons a ns)
  have tl: "topo_from {} ns" and sub: "set ns \<subseteq> U" and aU: "a \<in> U"
    using Cons.prems(1,2) by auto
  show ?case
  proof (cases "n \<in> set ns")
    case True
    then show ?thesis using Cons.IH [OF tl sub True Cons.prems(4,5)] by simp
  next
    case False
    with Cons.prems(3) have na: "n = a" by simp
    show ?thesis
    proof (cases "m = a")
      case True
      then show ?thesis by simp
    next
      case False
      with reachable_cases [OF Cons.prems(4)] na
      obtain p where p: "p \<in> set (history_inputs a)" "m \<in> reachable p"
        by blast
      have hp: "history p \<noteq> None"
      proof (cases "m = p")
        case True
        with Cons.prems(5) show ?thesis by simp
      next
        case False
        with reachable_cases [OF p(2)] have "history_inputs p \<noteq> []" by auto
        then show ?thesis by (cases "history p") (simp_all add: history_inputs_def)
      qed
      from Cons.prems(1) p(1) hp have "unique_id p \<in> unique_id ` set ns" by auto
      then obtain q where q: "q \<in> set ns" "unique_id q = unique_id p" by auto
      have "p \<in> U"
        using assms(2) [OF aU] input_reachable_proper [OF reachable_self p(1)] by auto
      with assms(1) q sub have "q = p" by (auto dest: inj_onD)
      with q(1) have "p \<in> set ns" by simp
      from Cons.IH [OF tl sub this p(2) Cons.prems(5)] show ?thesis by simp
    qed
  qed
qed

lemma pending_total_zero:
  "(\<And>k. k \<in> set ns \<Longrightarrow> total k x (pending cur k) = 0) \<Longrightarrow> pending_total ns cur x = 0"
  unfolding pending_total_def by (rule sum_list_all_zero) auto

lemma accumulated_empty:
  "(\<And>g. AccumulateDerivative x g \<notin> set es) \<Longrightarrow> accumulated es x = []"
  by (induction es x rule: accumulated.induct) auto

lemma chain_rule_sum:
  assumes "additive_chain_rule n" and "n \<noteq> x" and "\<not> is_leaf n"
  shows "total n x d = sum_list (map (\<lambda>(p, g). total p x g) (chain_rule n d))"
proof -
  have "map fst (chain_rule n d) = history_inputs n"
    using assms(1) unfolding additive_chain_rule_def by blast
  then have "zip (history_inputs n) (map snd (chain_rule n d)) = chain_rule n d"
    by (metis zip_map_fst_snd)
  then show ?thesis
    by (simp only: total_unfold [OF assms(2,3)])
qed

lemma backprop_loop_accumulated:
  fixes x :: "'g::comm_monoid_add Variable"
  assumes inj: "inj_on unique_id U" and closed: "\<And>n. n \<in> U \<Longrightarrow> reachable n \<subseteq> U"
    and lin: "\<forall>n \<in> U. \<not> is_leaf n \<longrightarrow> history n \<noteq> None \<longrightarrow> additive_chain_rule n"
    and leaf: "is_leaf x"
  shows "distinct (map unique_id ns) \<Longrightarrow> topo_from {} ns \<Longrightarrow> set ns \<subseteq> U
         \<Longrightarrow> (\<forall>n \<in> set ns. history n \<noteq> None) \<Longrightarrow> x \<in> set ns
         \<Longrightarrow> accumulated (snd (backprop_loop ns (cur, calls))) x
             = accumulated calls x @ [pending_total ns cur x]"
proof (induction ns arbitrary: cur calls)
  case Nil
  then show ?case by simp
next
  case (Cons n rest)
  let ?dn = "pending cur n"
  let ?cur1 = "cur(unique_id n \<mapsto> ?dn)"
  have d: "distinct (map unique_id rest)" and nid: "unique_id n \<notin> unique_id ` set rest"
    using Cons.prems(1) by auto
  have t: "topo_from {} rest" using Cons.prems(2) by simp
  have sub: "set rest \<subseteq> U" and nU: "n \<in> U" using Cons.prems(3) by auto
  have hist: "\<forall>k \<in> set rest. history k \<noteq> None" and hn: "history n \<noteq> None"
    using Cons.prems(4) by auto
  have hx: "history x \<noteq> None" using Cons.prems(4,5) by blast
  have add: "total p x (a + b) = total p x a + total p x b" if "p \<in> U" for p a b
  proof -
    have "\<forall>k \<in> reachable p. \<not> is_leaf k \<longrightarrow> history k \<noteq> None \<longrightarrow> additive_chain_rule k"
      using lin closed [OF that] by auto
    from total_additive [OF this] show ?thesis by simp
  qed
  have p1: "pending_total rest ?cur1 x = pending_total rest cur x"
    using nid by (rule pending_total_update_other)
  show ?case
  proof (cases "n = x")
    case True
    have xr: "x \<notin> set rest" using nid True by auto
    have "total k x (pending cur k) = 0" if "k \<in> set rest" for k
    proof -
      have "x \<notin> reachable k"
        using topo_from_closed [OF inj closed t sub that _ hx] xr by blast
      then show ?thesis by (rule total_unreachable)
    qed
    then have z: "pending_total rest cur x = 0" by (rule pending_total_zero)
    have step: "backprop_node n ?dn (?cur1, calls)
                = (?cur1, calls @ [AccumulateDerivative x ?dn])"
      using leaf True by (simp add: backprop_node_def)
    have "accumulated (snd (backprop_loop (n # rest) (cur, calls))) x
          = accumulated (calls @ [AccumulateDerivative x ?dn]) x"
      unfolding backprop_loop_Cons step by (rule accumulated_not_member [OF xr])
    also have "\<dots> = accumulated calls x @ [?dn]"
      by (simp add: accumulated_append)
    also have "?dn = pending_total (n # rest) cur x"
      unfolding pending_total_Cons z True by (simp add: total_self)
    finally show ?thesis .
  next
    case False
    with Cons.prems(5) have xr: "x \<in> set rest" by simp
    note IH = Cons.IH [OF d t sub hist xr]
    show ?thesis
    proof (cases "is_leaf n")
      case True
      have step: "backprop_node n ?dn (?cur1, calls)
                  = (?cur1, calls @ [AccumulateDerivative n ?dn])"
        using True by (simp add: backprop_node_def)
      have "accumulated (snd (backprop_loop (n # rest) (cur, calls))) x
            = accumulated (calls @ [AccumulateDerivative n ?dn]) x @ [pending_total rest ?cur1 x]"
        unfolding backprop_loop_Cons step by (rule IH)
      also have "\<dots> = accumulated calls x @ [pending_total rest cur x]"
        using False by (simp add: accumulated_append p1)
      also have "pending_total rest cur x = pending_total (n # rest) cur x"
        unfolding pending_total_Cons by (simp add: total_leaf [OF False True])
      finally show ?thesis .
    next
      case nl: False
      let ?ps = "chain_rule n ?dn"
      have acr: "additive_chain_rule n" using lin nU nl hn by blast
      have fst_ps: "map fst ?ps = history_inputs n"
        using acr unfolding additive_chain_rule_def by blast
      have cond: "(p \<in> set rest \<and> (\<forall>a b. total p x (a + b) = total p x a + total p x b))
                  \<or> (unique_id p \<notin> unique_id ` set rest \<and> total p x g = 0)"
        if pg: "(p, g) \<in> set ?ps" for p g
      proof -
        from pg have "p \<in> set (map fst ?ps)" by force
        then have pin: "p \<in> set (history_inputs n)" by (simp only: fst_ps)
        have pU: "p \<in> U"
          using closed [OF nU] input_reachable_proper [OF reachable_self pin] by auto
        show ?thesis
        proof (cases "history p")
          case None
          have "unique_id p \<notin> unique_id ` set rest"
          proof
            assume "unique_id p \<in> unique_id ` set rest"
            then obtain q where q: "q \<in> set rest" "unique_id q = unique_id p" by auto
            with inj pU sub have "q = p" by (auto dest: inj_onD)
            with q(1) hist None show False by auto
          qed
          moreover have "p \<noteq> x" using None hx by auto
          then have "total p x g = 0" using None by (rule total_no_history)
          ultimately show ?thesis by simp
        next
          case (Some ins)
          with Cons.prems(2) pin have "unique_id p \<in> unique_id ` set rest" by auto
          then obtain q where q: "q \<in> set rest" "unique_id q = unique_id p" by auto
          with inj pU sub have "q = p" by (auto dest: inj_onD)
          with q(1) add [OF pU] show ?thesis by simp
        qed
      qed
      have p2: "pending_total rest (add_grads ?ps ?cur1) x
                = pending_total rest ?cur1 x + sum_list (map (\<lambda>(p, g). total p x g) ?ps)"
        using d cond by (rule add_grads_pending_total)
      have step: "backprop_node n ?dn (?cur1, calls)
                  = (add_grads ?ps ?cur1, calls @ [ChainRule n ?dn])"
        using nl by (simp add: backprop_node_def)
      have "accumulated (snd (backprop_loop (n # rest) (cur, calls))) x
            = accumulated (calls @ [ChainRule n ?dn]) x
              @ [pending_total rest (add_grads ?ps ?cur1) x]"
        unfolding backprop_loop_Cons step by (rule IH)
      also have "\<dots> = accumulated calls x @ [pending_total rest (add_grads ?ps ?cur1) x]"
        by (simp add: accumulated_append)
      also have "pending_total rest (add_grads ?ps ?cur1) x = pending_total (n # rest) cur x"
        unfolding p2 p1 pending_total_Cons chain_rule_sum [OF acr False nl]
        by (simp add: ac_simps)
      finally show ?thesis .
    qed
  qed
qed

lemma topological_sort_no_history:
  "history variable = None \<Longrightarrow> topological_sort variable = [variable]"
  by (cases "unique_id variable \<in> ({} :: int set)")
     (simp_all add: topological_sort_eq visit_order_simps)

lemma backpropagate_accumulated_total:
  fixes variable :: "'g::comm_monoid_add Variable"
  assumes inj: "inj_on unique_id (reachable variable)"
    and lin: "\<forall>n \<in> reachable variable. \<not> is_leaf n \<longrightarrow> history n \<noteq> None \<longrightarrow> additive_chain_rule n"
    and ne: "x \<noteq> variable" and leaf: "is_leaf x"
    and xr: "x \<in> reachable variable" and hx: "history x \<noteq> None"
  shows "accumulated (backpropagate variable deriv) x = [total variable x deriv]"
proof -
  let ?U = "reachable variable"
  let ?T = "rev (visit_order variable {})"
  let ?cur0 = "[unique_id variable \<mapsto> deriv]"
  from reachable_cases [OF xr] ne have "history_inputs variable \<noteq> []" by auto
  then obtain ins where h: "history variable = Some ins"
    by (cases "history variable") (simp_all add: history_inputs_def)
  have ord: "visit_order variable {} = inputs_order ins {unique_id variable} @ [variable]"
    using h by (simp add: visit_order_simps)
  let ?R = "rev (inputs_order ins {unique_id variable})"
  have T: "?T = variable # ?R" by (simp add: ord)
  have props: "\<forall>n \<in> set (visit_order variable {}). n \<in> ?U \<and> history n \<noteq> None"
    and dist: "distinct (map unique_id (visit_order variable {}))"
    using visit_order_props(1) [of variable "{}"] by auto
  have d: "distinct (map unique_id ?T)"
    using dist by (simp add: rev_map [symmetric])
  have t: "topo_from {} ?T" using inj by (rule visit_topo(1))
  have sub: "set ?T \<subseteq> ?U" and hist: "\<forall>n \<in> set ?T. history n \<noteq> None"
    using props by auto
  have xT: "x \<in> set ?T"
    using visit_complete(2) [OF inj] xr hx by auto
  have closed: "reachable n \<subseteq> ?U" if "n \<in> ?U" for n
    using that by (rule reachable_trans)
  obtain c1 l1 where st: "backprop_loop ?T (?cur0, []) = (c1, l1)"
    by (cases "backprop_loop ?T (?cur0, [])")
  have "accumulated (snd (backprop_loop ?T (?cur0, []))) x
        = accumulated [] x @ [pending_total ?T ?cur0 x]"
    using inj closed lin leaf d t sub hist xT by (rule backprop_loop_accumulated)
  then have l1: "accumulated l1 x = [pending_total ?T ?cur0 x]"
    by (simp add: st)
  have zero: "total k x (pending ?cur0 k) = 0" if "k \<in> set ?R" for k
  proof -
    have "unique_id variable \<notin> unique_id ` set ?R"
      using d unfolding T by simp
    with that have "unique_id k \<noteq> unique_id variable"
      by (metis imageI)
    then have p: "pending ?cur0 k = 0" by (simp add: pending_def)
    have "k \<in> ?U" using sub that unfolding T by auto
    then have "\<forall>n \<in> reachable k. \<not> is_leaf n \<longrightarrow> history n \<noteq> None \<longrightarrow> additive_chain_rule n"
      using lin closed by blast
    from total_additive [OF this] p show ?thesis by simp
  qed
  have z: "pending_total ?R ?cur0 x = 0"
    using zero by (rule pending_total_zero)
  have pt: "pending_total ?T ?cur0 x = total variable x deriv"
    unfolding T pending_total_Cons z by (simp add: pending_def)
  have "backpropagate variable deriv = snd (backprop_loop [variable] (c1, l1))"
    by (simp only: backpropagate_def topological_sort_eq backprop_loop_append st)
  also have "accumulated \<dots> x = accumulated l1 x"
    using ne by (intro accumulated_not_member) simp
  finally show ?thesis by (simp add: l1 pt)
qed

lemma backpropagate_accumulated_none:
  assumes "x \<noteq> variable" and "\<not> (is_leaf x \<and> x \<in> reachable variable \<and> history x \<noteq> None)"
  shows "accumulated (backpropagate variable deriv) x = []"
proof (rule accumulated_empty)
  fix g
  show "AccumulateDerivative x g \<notin> set (backpropagate variable deriv)"
  proof
    assume "AccumulateDerivative x g \<in> set (backpropagate variable deriv)"
    from backpropagate_events [OF this]
    have "is_leaf x" and "x \<in> set (topological_sort variable)"
      by (simp_all add: event_ok_def)
    with topological_sort_members [of x variable] assms show False by blast
  qed
qed

lemma backpropagate_bare_root:
  fixes variable :: "'g::comm_monoid_add Variable"
  assumes "history variable = None" and "is_leaf variable"
  shows "accumulated (backpropagate variable deriv) variable = [deriv]"
  using assms
  by (simp add: backpropagate_def topological_sort_no_history backprop_node_def)

section \<open>Evaluation on the example graphs\<close>

lemma topological_sort_ex_z: "topological_sort ex_z = [ex_z, ex_y, ex_x, ex_z]"
  by (simp add: topological_sort_def ex_defs)

lemma backpropagate_ex_z:
  "backpropagate ex_z 1 =
     [ChainRule ex_z 1, ChainRule ex_y 2, AccumulateDerivative ex_x 2, ChainRule ex_z 1]"
  unfolding backpropagate_def topological_sort_ex_z
  by (simp add: ex_defs backprop_node_def)

lemma reachable_ex_z: "reachable ex_z = {ex_z, ex_y, ex_x, ex_one, ex_two}"
  by (auto simp: ex_defs)

lemma inj_on_ex_z: "inj_on unique_id (reachable ex_z)"
  unfolding reachable_ex_z by (simp add: ex_defs)

lemma reachable_dia_d_ex_x:
  "reachable (dia_d ex_x) = {dia_d ex_x, dia_b ex_x, dia_c ex_x, ex_x}"
  by (auto simp: ex_defs)

lemma additive_dia:
  "additive_chain_rule (dia_d ex_x)" "additive_chain_rule (dia_b ex_x)"
  "additive_chain_rule (dia_c ex_x)"
  by (simp_all add: additive_chain_rule_def history_inputs_def ex_defs algebra_simps)

lemma total_dia: "total (dia_d ex_x) ex_x 1 = 5"
proof -
  have b: "total (dia_b ex_x) ex_x g = g * 2" for g
    by (subst total.simps) (simp add: ex_defs history_inputs_def total_self)
  have c: "total (dia_c ex_x) ex_x g = g * 3" for g
    by (subst total.simps) (simp add: ex_defs history_inputs_def total_self)
  have "total (dia_d ex_x) ex_x 1 = total (dia_b ex_x) ex_x 1 + total (dia_c ex_x) ex_x 1"
    by (subst total.simps) (simp add: ex_defs history_inputs_def)
  then show ?thesis by (simp add: b c)
qed

text \<open>
  A root that is a leaf with a history is met twice by the loop.
\<close>

lemma backpropagate_leaf_root_ex_x: "accumulated (backpropagate ex_x 3) ex_x = [3, 3]"
  by (simp add: backpropagate_def topological_sort_def backprop_node_def ex_defs)

section \<open>Properties of the topological sort\<close>

text \<open>
  C1, amended. When the Variables reachable from the root have pairwise different
  \<^verbatim>\<open>unique_id\<close>s, the Variables in the result of \<^verbatim>\<open>topological_sort\<close> are the root and
  the reachable Variables that have a history, and no Variable other than the root
  occurs in it more than once.
\<close>

theorem topological_sort_contents:
  assumes "inj_on unique_id (reachable variable)"
  shows "set (topological_sort variable) = insert variable {n \<in> reachable variable. history n \<noteq> None}
         \<and> (\<forall>n. n \<noteq> variable \<longrightarrow> count_list (topological_sort variable) n \<le> 1)"
proof -
  have d: "distinct (visit_order variable {})"
    using visit_order_props(1) [of variable "{}"] by (simp add: distinct_map)
  have sub: "set (visit_order variable {}) \<subseteq> {n \<in> reachable variable. history n \<noteq> None}"
    using visit_order_props(1) [of variable "{}"] by auto
  have "set (topological_sort variable) = insert variable {n \<in> reachable variable. history n \<noteq> None}"
    using sub visit_complete(2) [OF assms] by (auto simp: topological_sort_eq)
  moreover have "count_list (topological_sort variable) n \<le> 1" if "n \<noteq> variable" for n
  proof -
    have "count_list (rev (visit_order variable {})) n \<le> 1"
      using distinct_count_list_le1 [OF d, of n] by simp
    with that show ?thesis by (simp add: topological_sort_eq)
  qed
  ultimately show ?thesis by blast
qed

theorem topological_sort_contents_witness:
  "inj_on unique_id (reachable ex_z)
   \<and> set (topological_sort ex_z) = {ex_z, ex_y, ex_x}
   \<and> count_list (topological_sort ex_z) ex_x = 1"
proof -
  have s: "insert ex_z {n \<in> reachable ex_z. history n \<noteq> None} = {ex_z, ex_y, ex_x}"
    unfolding reachable_ex_z by (auto simp: ex_defs)
  have c: "count_list (topological_sort ex_z) ex_x = 1"
    unfolding topological_sort_ex_z by (simp add: ex_defs)
  show ?thesis
    using inj_on_ex_z topological_sort_contents [OF inj_on_ex_z] s c by simp
qed

text \<open>
  C1 as stated fails: the leaf \<open>ex_bare\<close> has no history, is not a constant and is an
  input of \<open>ex_inc\<close>, and it is not in the result.
\<close>

theorem topological_sort_omits_bare_leaf:
  "ex_bare \<in> reachable ex_inc \<and> \<not> is_constant ex_bare \<and> is_leaf ex_bare
   \<and> history ex_bare = None \<and> ex_bare \<notin> set (topological_sort ex_inc)"
  by (simp add: topological_sort_def ex_defs)

text \<open>
  C4. On the chain \<^verbatim>\<open>z = y * 2\<close>, \<^verbatim>\<open>y = x + 1\<close> the result is \<open>z, y, x, z\<close>: the root
  comes first and a second time last, after \<open>y\<close>, which it depends on.
\<close>

theorem topological_sort_root_twice:
  "topological_sort ex_z = [ex_z, ex_y, ex_x, ex_z]
   \<and> ex_y \<in> set (history_inputs ex_z)
   \<and> topological_sort ex_z ! 1 = ex_y \<and> topological_sort ex_z ! 3 = ex_z"
  unfolding topological_sort_ex_z by (simp add: history_inputs_def ex_defs)

text \<open>
  C5, amended. A Variable without a history that is not the root is not in the result
  of \<^verbatim>\<open>topological_sort\<close>, and \<^verbatim>\<open>backpropagate\<close> calls neither its \<^verbatim>\<open>chain_rule\<close> nor
  its \<^verbatim>\<open>accumulate_derivative\<close>.
\<close>

theorem no_history_pruned:
  assumes "history v = None" and "v \<noteq> variable"
  shows "v \<notin> set (topological_sort variable)
         \<and> (\<forall>e \<in> set (backpropagate variable deriv). target e \<noteq> v)"
  using assms topological_sort_members [of v variable] backpropagate_events [of _ variable deriv]
  by blast

theorem no_history_pruned_witness:
  "history ex_two = None \<and> ex_two \<noteq> ex_z \<and> ex_two \<in> reachable ex_z
   \<and> ex_two \<notin> set (topological_sort ex_z)
   \<and> chain_rule_calls (backpropagate ex_z 1) ex_two = []
   \<and> accumulated (backpropagate ex_z 1) ex_two = []"
proof -
  have h: "history ex_two = None" and d: "ex_two \<noteq> ex_z"
    by (simp_all add: ex_defs)
  have r: "ex_two \<in> reachable ex_z"
    unfolding reachable_ex_z by simp
  have c: "chain_rule_calls (backpropagate ex_z 1) ex_two = []
           \<and> accumulated (backpropagate ex_z 1) ex_two = []"
    unfolding backpropagate_ex_z by (simp add: ex_defs)
  show ?thesis
    using h d r c no_history_pruned [OF h d, of 1] by simp
qed

text \<open>
  C5 as stated fails. The constant \<open>ex_frozen\<close> has a history and is an input of the
  root \<open>ex_neg\<close>: it is in the result of the sort, and \<^verbatim>\<open>backpropagate\<close> calls its
  \<^verbatim>\<open>chain_rule\<close>. The constant \<open>ex_two\<close> has no history: taken as the root, it is the
  result of the sort and \<^verbatim>\<open>backpropagate\<close> calls its \<^verbatim>\<open>chain_rule\<close>.
\<close>

theorem constant_processed:
  "is_constant ex_frozen \<and> ex_frozen \<noteq> ex_neg \<and> ex_frozen \<in> reachable ex_neg
   \<and> topological_sort ex_neg = [ex_neg, ex_frozen, ex_neg]
   \<and> chain_rule_calls (backpropagate ex_neg 1) ex_frozen = [- 1]
   \<and> is_constant ex_two \<and> history ex_two = None \<and> topological_sort ex_two = [ex_two]
   \<and> backpropagate ex_two 1 = [ChainRule ex_two 1]"
  by (simp add: backpropagate_def topological_sort_def backprop_node_def ex_defs)

section \<open>Properties of backpropagate\<close>

text \<open>
  C2, amended. Let the Variables reachable from the root have pairwise different ids
  and let every reachable Variable that is not a leaf and has a history have an
  additive chain rule. Then \<^verbatim>\<open>backpropagate\<close> calls \<^verbatim>\<open>accumulate_derivative\<close> on a
  Variable \<open>x\<close> other than the root exactly once, with the total derivative at \<open>x\<close>, when
  \<open>x\<close> is a reachable leaf that has a history, and never otherwise; on a root that is a
  leaf without a history it calls it once, with the seed.
\<close>

theorem backpropagate_leaf_total:
  fixes variable :: "'g::comm_monoid_add Variable"
  assumes "inj_on unique_id (reachable variable)"
    and "\<forall>n \<in> reachable variable. \<not> is_leaf n \<longrightarrow> history n \<noteq> None \<longrightarrow> additive_chain_rule n"
  shows "(x \<noteq> variable \<longrightarrow>
            accumulated (backpropagate variable deriv) x =
              (if is_leaf x \<and> x \<in> reachable variable \<and> history x \<noteq> None
               then [total variable x deriv] else []))
         \<and> (is_leaf variable \<and> history variable = None \<longrightarrow>
              accumulated (backpropagate variable deriv) variable = [deriv])"
  using backpropagate_accumulated_total [OF assms, of x deriv]
    backpropagate_accumulated_none [of x variable deriv]
    backpropagate_bare_root [of variable deriv]
  by auto

theorem backpropagate_leaf_total_witness:
  "inj_on unique_id (reachable (dia_d ex_x))
   \<and> ex_x \<noteq> dia_d ex_x \<and> is_leaf ex_x \<and> ex_x \<in> reachable (dia_d ex_x) \<and> history ex_x \<noteq> None
   \<and> total (dia_d ex_x) ex_x 1 = 5
   \<and> accumulated (backpropagate (dia_d ex_x) 1) ex_x = [5]"
proof -
  have inj: "inj_on unique_id (reachable (dia_d ex_x))"
    unfolding reachable_dia_d_ex_x by (simp add: ex_defs)
  have lin: "\<forall>n \<in> reachable (dia_d ex_x).
               \<not> is_leaf n \<longrightarrow> history n \<noteq> None \<longrightarrow> additive_chain_rule n"
    unfolding reachable_dia_d_ex_x using additive_dia by (simp add: ex_x_def)
  have x: "ex_x \<noteq> dia_d ex_x" "is_leaf ex_x" "history ex_x \<noteq> None"
    by (simp_all add: ex_defs)
  have r: "ex_x \<in> reachable (dia_d ex_x)"
    unfolding reachable_dia_d_ex_x by simp
  show ?thesis
    using inj x r total_dia backpropagate_leaf_total [OF inj lin, of ex_x 1]
    by simp
qed

text \<open>
  C2 as stated fails: the leaf \<open>ex_bare\<close> has no history and is an input of the root
  \<open>ex_inc\<close>, and \<^verbatim>\<open>accumulate_derivative\<close> is not called on it.
\<close>

theorem backpropagate_skips_bare_leaf:
  "is_leaf ex_bare \<and> ex_bare \<in> reachable ex_inc
   \<and> accumulated (backpropagate ex_inc 1) ex_bare = []"
  by (simp add: backpropagate_def topological_sort_def backprop_node_def ex_defs)

text \<open>
  C3. On the chain, \<^verbatim>\<open>backpropagate(z, 1)\<close> calls the \<^verbatim>\<open>chain_rule\<close> of the root \<open>z\<close>
  twice, each time with the seed.
\<close>

theorem chain_rule_root_twice:
  "\<not> is_leaf ex_z \<and> chain_rule_calls (backpropagate ex_z 1) ex_z = [1, 1]"
  unfolding backpropagate_ex_z by (simp add: ex_defs)

text \<open>
  Every call \<^verbatim>\<open>backpropagate\<close> makes is on a Variable of the topological order; it is
  \<^verbatim>\<open>accumulate_derivative\<close> when that Variable is a leaf and \<^verbatim>\<open>chain_rule\<close> when it is
  not.
\<close>

lemma backpropagate_calls_classified:
  "\<forall>e \<in> set (backpropagate variable deriv).
     (case e of AccumulateDerivative n g \<Rightarrow> is_leaf n | ChainRule n g \<Rightarrow> \<not> is_leaf n)
     \<and> target e \<in> set (topological_sort variable)"
  using backpropagate_events [of _ variable deriv] by (auto simp: event_ok_def)

text \<open>
  C6, amended. In a diamond \<open>d\<close> over \<open>b\<close> and \<open>c\<close>, both over a leaf \<open>x\<close> that has a
  history without inputs, with pairwise different ids, \<^verbatim>\<open>backpropagate(d, seed)\<close> calls
  \<^verbatim>\<open>accumulate_derivative\<close> on \<open>x\<close> once, with the sum of what the chain rule of \<open>c\<close>
  and the chain rule of \<open>b\<close> hand to \<open>x\<close>.
\<close>

theorem diamond_accumulates_sum:
  assumes x: "x = Var ix (Some []) True kx rx"
    and b: "b = Var ib (Some [x]) False kb (\<lambda>g. [(x, hb g)])"
    and c: "c = Var ic (Some [x]) False kc (\<lambda>g. [(x, hc g)])"
    and d: "d = Var idd (Some [b, c]) False kd (\<lambda>g. [(b, fb g), (c, fc g)])"
    and ids: "distinct [ix, ib, ic, idd]"
  shows "accumulated (backpropagate d seed) x = [hc (fc seed) + hb (fb seed)]"
proof -
  have t: "topological_sort d = [d, c, b, x, d]"
    using ids by (simp add: topological_sort_def x b c d)
  show ?thesis
    unfolding backpropagate_def t using ids
    by (simp add: backprop_node_def x b c d)
qed

theorem diamond_accumulates_sum_witness:
  "distinct [1, 11, 12, 13 :: int] \<and> accumulated (backpropagate (dia_d ex_x) 1) ex_x = [5]"
proof -
  have ids: "distinct [1, 11, 12, 13 :: int]" by simp
  show ?thesis
    using ids diamond_accumulates_sum [OF ex_x_def dia_b_def dia_c_def dia_d_def ids, of 1]
    by simp
qed

text \<open>
  C6 as stated fails when the leaf has no history: nothing is accumulated on it.
\<close>

theorem diamond_bare_leaf_not_accumulated:
  "is_leaf ex_bare \<and> ex_bare \<in> reachable (dia_d ex_bare)
   \<and> accumulated (backpropagate (dia_d ex_bare) 1) ex_bare = []"
  by (simp add: backpropagate_def topological_sort_def backprop_node_def ex_defs)

end
